theory Spec2Isabelle
  imports Complex_Main
begin

section \<open>The span tree of a section list\<close>

text \<open>
  The section list of \<^verbatim>\<open>src/index.ts\<close> keeps its sections in a binary tree of spans
  (\<^verbatim>\<open>ISpan\<close>). A span whose \<^verbatim>\<open>level\<close> is 0 is a leaf: a run of \<^verbatim>\<open>count\<close> sections of
  equal size, of total size \<^verbatim>\<open>size\<close>, with both children \<^verbatim>\<open>null\<close>. Any other span is a
  branch with two children; its \<^verbatim>\<open>count\<close>, \<^verbatim>\<open>size\<close> and \<^verbatim>\<open>level\<close> fields cache what
  \<^verbatim>\<open>createBranch\<close> and \<^verbatim>\<open>updateBranch\<close> computed from the children when they last ran.

  The two shapes are the two constructors below, so the source's test \<^verbatim>\<open>span.level === 0\<close>
  is the test for the constructor \<open>Leaf\<close>. The cached fields of a branch are kept as the
  source keeps them, stale or not. Counts, indices and levels are integers. Sizes and
  offsets are JavaScript numbers; they are modelled as exact rationals, so rounding,
  NaN and the infinities are outside the model. Where the source divides by a number that
  is zero, its result is no finite number and the model returns the error \<open>NonFinite\<close>;
  where the source reads a field of \<^verbatim>\<open>null\<close>, the model returns \<open>TypeError\<close>.
  The tree is owned by its root alone, so the in-place updates of the source are written
  as functions that return the updated span.

  The source's \<^verbatim>\<open>insert\<close> and \<^verbatim>\<open>remove\<close> on spans are \<open>insert_span\<close> and \<open>remove_span\<close>
  here, the field \<^verbatim>\<open>size\<close> is \<open>size_sp\<close>, and the methods of the class carry the prefix
  \<open>SectionList\<close>.
\<close>

datatype span =
    Leaf (count: int) (size_sp: rat)
  | Branch (count: int) (size_sp: rat) int span span

datatype error = TypeError | NonFinite

fun level :: "span \<Rightarrow> int" where
  "level (Leaf c s) = 0"
| "level (Branch c s lv l r) = lv"

definition createLeaf :: "int \<Rightarrow> rat \<Rightarrow> span" where
  "createLeaf c s = Leaf c s"

definition createBranch :: "span \<Rightarrow> span \<Rightarrow> span" where
  "createBranch l r =
     Branch (count l + count r) (size_sp l + size_sp r) (max (level l) (level r) + 1) l r"

text \<open>\<^verbatim>\<open>updateBranch\<close> overwrites all five fields of the span it is given.\<close>

definition updateBranch :: "span \<Rightarrow> span \<Rightarrow> span \<Rightarrow> span" where
  "updateBranch sp l r =
     Branch (count l + count r) (size_sp l + size_sp r) (max (level l) (level r) + 1) l r"

subsection \<open>Queries\<close>

text \<open>
  The three \<^verbatim>\<open>while (span.level !== 0)\<close> loops descend one child per iteration; the local
  variables they update are the extra arguments.
\<close>

fun indexOf_loop :: "span \<Rightarrow> rat \<Rightarrow> int \<Rightarrow> error + int" where
  "indexOf_loop (Leaf c s) offset index =
     (if s = 0 then Inl NonFinite
      else Inr (index + \<lfloor>offset * of_int c / s\<rfloor>))"
| "indexOf_loop (Branch c s lv l r) offset index =
     (if offset < size_sp l then indexOf_loop l offset index
      else indexOf_loop r (offset - size_sp l) (index + count l))"

definition indexOf :: "span \<Rightarrow> rat \<Rightarrow> error + int" where
  "indexOf sp offset = indexOf_loop sp offset 0"

fun offsetOf_loop :: "span \<Rightarrow> int \<Rightarrow> rat \<Rightarrow> error + rat" where
  "offsetOf_loop (Leaf c s) index offset =
     (if c = 0 then Inl NonFinite
      else Inr (offset + of_int index * s / of_int c))"
| "offsetOf_loop (Branch c s lv l r) index offset =
     (if index < count l then offsetOf_loop l index offset
      else offsetOf_loop r (index - count l) (offset + size_sp l))"

definition offsetOf :: "span \<Rightarrow> int \<Rightarrow> error + rat" where
  "offsetOf sp index = offsetOf_loop sp index 0"


subsection \<open>Rebalancing\<close>

text \<open>
  \<^verbatim>\<open>rebalance\<close> reads \<^verbatim>\<open>left.level\<close> and \<^verbatim>\<open>right.level\<close> first, which throws on a leaf.
  In the left-heavy cases it reads the children of \<^verbatim>\<open>left\<close>, and in the Left-Right case
  the children of \<^verbatim>\<open>left.right\<close>; symmetrically on the right.
\<close>

fun rebalance :: "span \<Rightarrow> error + span" where
  "rebalance (Leaf c s) = Inl TypeError"
| "rebalance (Branch c s lv l r) =
     (let balance = level l - level r in
      if balance > 1 then
        (case l of
           Leaf lc ls \<Rightarrow> Inl TypeError
         | Branch lc ls ll subLeft subRight \<Rightarrow>
             if level subLeft > level subRight then
               Inr (updateBranch (Branch c s lv l r) subLeft (updateBranch l subRight r))
             else
               (case subRight of
                  Leaf rc rs \<Rightarrow> Inl TypeError
                | Branch rc rs rl srl srr \<Rightarrow>
                    Inr (updateBranch (Branch c s lv l r)
                           (updateBranch l subLeft srl) (updateBranch subRight srr r))))
      else if balance < - 1 then
        (case r of
           Leaf rc rs \<Rightarrow> Inl TypeError
         | Branch rc rs rl subLeft subRight \<Rightarrow>
             if level subRight > level subLeft then
               Inr (updateBranch (Branch c s lv l r) (updateBranch r l subLeft) subRight)
             else
               (case subLeft of
                  Leaf lc ls \<Rightarrow> Inl TypeError
                | Branch lc ls ll sll slr \<Rightarrow>
                    Inr (updateBranch (Branch c s lv l r)
                           (updateBranch subLeft l sll) (updateBranch r slr subRight))))
      else Inr (updateBranch (Branch c s lv l r) l r))"

text \<open>
  The loop condition of \<^verbatim>\<open>remove\<close>: \<^verbatim>\<open>Math.abs(span.left.level - span.right.level) > 1\<close>.
  The loop tests it on what \<^verbatim>\<open>rebalance\<close> returned, which is always a branch.
\<close>

fun unbalanced :: "span \<Rightarrow> bool" where
  "unbalanced (Leaf c s) = False"
| "unbalanced (Branch c s lv l r) = (\<bar>level l - level r\<bar> > 1)"

text \<open>
  The \<^verbatim>\<open>do { span = rebalance(span); } while (...)\<close> loop of \<^verbatim>\<open>remove\<close>. The source gives
  no bound on its iterations, so the result is an option: \<open>None\<close> is a loop that never
  ends.
\<close>

partial_function (option) rebalance_loop :: "span \<Rightarrow> (error + span) option" where
  "rebalance_loop sp =
     (case rebalance sp of
        Inl e \<Rightarrow> Some (Inl e)
      | Inr sp' \<Rightarrow> if unbalanced sp' then rebalance_loop sp' else Some (Inr sp'))"

declare rebalance_loop.simps [code]

subsection \<open>Insertion\<close>

text \<open>
  The per-section size of a leaf is \<^verbatim>\<open>span.size / span.count\<close>, which is no finite number
  when the count is zero: then the comparison with the new size fails, and the split case
  has no finite result.
\<close>

definition js_div :: "rat \<Rightarrow> rat \<Rightarrow> rat option" where
  "js_div a b = (if b = 0 then None else Some (a / b))"

fun insert_span :: "span \<Rightarrow> int \<Rightarrow> int \<Rightarrow> rat \<Rightarrow> error + span" where
  "insert_span (Leaf c s) index cnt sz =
     (if js_div s (of_int c) = Some sz then
        Inr (Leaf (c + cnt) (s + of_int cnt * sz))
      else if index = 0 then
        Inr (createBranch (createLeaf cnt (of_int cnt * sz)) (Leaf c s))
      else if index \<ge> c then
        Inr (createBranch (Leaf c s) (createLeaf cnt (of_int cnt * sz)))
      else
        (case js_div s (of_int c) of
           None \<Rightarrow> Inl NonFinite
         | Some each \<Rightarrow>
             (let rest = c - index;
                  subLeft = createLeaf cnt (of_int cnt * sz);
                  subRight = createLeaf rest (of_int rest * each);
                  newLeft = createLeaf index (of_int index * each);
                  newRight = createBranch subLeft subRight
              in Inr (updateBranch (Leaf c s) newLeft newRight))))"
| "insert_span (Branch c s lv l r) index cnt sz =
     (if index < count l then
        (case insert_span l index cnt sz of
           Inl e \<Rightarrow> Inl e
         | Inr l' \<Rightarrow> rebalance (Branch c s lv l' r))
      else
        (case insert_span r (index - count l) cnt sz of
           Inl e \<Rightarrow> Inl e
         | Inr r' \<Rightarrow> rebalance (Branch c s lv l r')))"

subsection \<open>Removal\<close>

text \<open>
  After the recursive calls either child may be \<^verbatim>\<open>null\<close> (\<open>None\<close>). A surviving child is
  hoisted (\<open>hoist\<close>); when both are gone the source reads \<^verbatim>\<open>span.level\<close> of \<^verbatim>\<open>null\<close>. A
  span that is still a branch (\<^verbatim>\<open>span.level > 0\<close>, read from the cached field) enters the
  rebalancing loop (\<open>finish_remove\<close>). Both are the tail of \<^verbatim>\<open>remove\<close>, which its three
  branch cases share.
\<close>

definition hoist :: "int \<Rightarrow> rat \<Rightarrow> int \<Rightarrow> span option \<Rightarrow> span option \<Rightarrow> error + span" where
  "hoist c s lv l r =
     (case l of
        None \<Rightarrow> (case r of None \<Rightarrow> Inl TypeError | Some b \<Rightarrow> Inr b)
      | Some a \<Rightarrow> (case r of None \<Rightarrow> Inr a | Some b \<Rightarrow> Inr (Branch c s lv a b)))"

definition finish_remove :: "int \<Rightarrow> rat \<Rightarrow> int \<Rightarrow> span option \<Rightarrow> span option \<Rightarrow>
    (error + span option) option" where
  "finish_remove c s lv l r =
     (case hoist c s lv l r of
        Inl e \<Rightarrow> Some (Inl e)
      | Inr sp \<Rightarrow>
          if level sp > 0 then
            (case rebalance_loop sp of
               None \<Rightarrow> None
             | Some (Inl e) \<Rightarrow> Some (Inl e)
             | Some (Inr sp') \<Rightarrow> Some (Inr (Some sp')))
          else Some (Inr (Some sp)))"

fun remove_span :: "span \<Rightarrow> int \<Rightarrow> int \<Rightarrow> (error + span option) option" where
  "remove_span (Leaf c s) index cnt =
     (if cnt = c then Some (Inr None)
      else
        (case js_div s (of_int c) of
           None \<Rightarrow> Some (Inl NonFinite)
         | Some each \<Rightarrow>
             (let rest = c - cnt in Some (Inr (Some (Leaf rest (of_int rest * each)))))))"
| "remove_span (Branch c s lv l r) index cnt =
     (if cnt = c then Some (Inr None)
      else if index < count l \<and> index + cnt > count l then
        (let tail = count l - index in
         case remove_span l index tail of
           None \<Rightarrow> None
         | Some (Inl e) \<Rightarrow> Some (Inl e)
         | Some (Inr l') \<Rightarrow>
             (case remove_span r 0 (cnt - tail) of
                None \<Rightarrow> None
              | Some (Inl e) \<Rightarrow> Some (Inl e)
              | Some (Inr r') \<Rightarrow> finish_remove c s lv l' r'))
      else if index < count l then
        (case remove_span l index cnt of
           None \<Rightarrow> None
         | Some (Inl e) \<Rightarrow> Some (Inl e)
         | Some (Inr l') \<Rightarrow> finish_remove c s lv l' (Some r))
      else
        (case remove_span r (index - count l) cnt of
           None \<Rightarrow> None
         | Some (Inl e) \<Rightarrow> Some (Inl e)
         | Some (Inr r') \<Rightarrow> finish_remove c s lv (Some l) r'))"

subsection \<open>The facade: class SectionList\<close>

text \<open>
  The only field of the class is \<^verbatim>\<open>_root\<close>, a span or \<^verbatim>\<open>null\<close>. A method that changes
  the list returns the new root together with its return value. The arguments
  \<^verbatim>\<open>index\<close> and \<^verbatim>\<open>count\<close> are numbers that the methods floor themselves.
\<close>

type_synonym section_list = "span option"

definition list_count :: "section_list \<Rightarrow> int" where
  "list_count rt = (case rt of None \<Rightarrow> 0 | Some sp \<Rightarrow> count sp)"

definition list_size :: "section_list \<Rightarrow> rat" where
  "list_size rt = (case rt of None \<Rightarrow> 0 | Some sp \<Rightarrow> size_sp sp)"

definition SectionList_indexOf :: "section_list \<Rightarrow> rat \<Rightarrow> error + int" where
  "SectionList_indexOf rt offset =
     (case rt of
        None \<Rightarrow> Inr (- 1)
      | Some sp \<Rightarrow>
          if offset < 0 \<or> offset \<ge> size_sp sp then Inr (- 1) else indexOf sp offset)"

definition SectionList_offsetOf :: "section_list \<Rightarrow> rat \<Rightarrow> error + rat" where
  "SectionList_offsetOf rt index =
     (case rt of
        None \<Rightarrow> Inr (- 1)
      | Some sp \<Rightarrow>
          (let i = \<lfloor>index\<rfloor> in
           if i < 0 \<or> i \<ge> count sp then Inr (- 1) else offsetOf sp i))"


definition SectionList_insert ::
    "section_list \<Rightarrow> rat \<Rightarrow> rat \<Rightarrow> rat \<Rightarrow> error + (section_list \<times> int)" where
  "SectionList_insert rt index cnt sz =
     (let ct = \<lfloor>cnt\<rfloor> in
      if ct \<le> 0 then Inr (rt, - 1)
      else
        (case rt of
           None \<Rightarrow> Inr (Some (createLeaf ct (of_int ct * max 0 sz)), 0)
         | Some sp \<Rightarrow>
             (let i = max 0 (min \<lfloor>index\<rfloor> (count sp)) in
              case insert_span sp i ct (max 0 sz) of
                Inl e \<Rightarrow> Inl e
              | Inr sp' \<Rightarrow> Inr (Some sp', i))))"

definition SectionList_remove ::
    "section_list \<Rightarrow> rat \<Rightarrow> rat \<Rightarrow> (error + (section_list \<times> int)) option" where
  "SectionList_remove rt index cnt =
     (case rt of
        None \<Rightarrow> Some (Inr (rt, 0))
      | Some sp \<Rightarrow>
          (let ct = \<lfloor>cnt\<rfloor> in
           if ct \<le> 0 then Some (Inr (rt, 0))
           else
             (let s = \<lfloor>index\<rfloor>;
                  i = max 0 s;
                  j = min (s + ct - 1) (count sp - 1);
                  n = j - i + 1
              in if n \<le> 0 then Some (Inr (rt, 0))
                 else
                   (case remove_span sp i n of
                      None \<Rightarrow> None
                    | Some (Inl e) \<Rightarrow> Some (Inl e)
                    | Some (Inr rt') \<Rightarrow> Some (Inr (rt', n))))))"

definition SectionList_resize ::
    "section_list \<Rightarrow> rat \<Rightarrow> rat \<Rightarrow> rat \<Rightarrow> (error + (section_list \<times> int)) option" where
  "SectionList_resize rt index cnt sz =
     (case rt of
        None \<Rightarrow> Some (Inr (rt, 0))
      | Some sp \<Rightarrow>
          (let ct = \<lfloor>cnt\<rfloor> in
           if ct \<le> 0 then Some (Inr (rt, 0))
           else
             (let s = \<lfloor>index\<rfloor>;
                  i = max 0 s;
                  j = min (s + ct - 1) (count sp - 1);
                  n = j - i + 1
              in if n \<le> 0 then Some (Inr (rt, 0))
                 else
                   (case remove_span sp i n of
                      None \<Rightarrow> None
                    | Some (Inl e) \<Rightarrow> Some (Inl e)
                    | Some (Inr None) \<Rightarrow>
                        Some (Inr (Some (createLeaf n (of_int n * max 0 sz)), n))
                    | Some (Inr (Some sp')) \<Rightarrow>
                        (case insert_span sp' i n (max 0 sz) of
                           Inl e \<Rightarrow> Some (Inl e)
                         | Inr sp'' \<Rightarrow> Some (Inr (Some sp'', n)))))))"

section \<open>Invariants and the abstract view\<close>

text \<open>
  A span is well formed when every leaf holds at least one section and has a non-negative
  total size, and the cached fields of every branch are exactly the aggregates of its
  children (invariants 1 and 2 of the data model).
\<close>

fun well_formed :: "span \<Rightarrow> bool" where
  "well_formed (Leaf c s) = (0 < c \<and> 0 \<le> s)"
| "well_formed (Branch c s lv l r) =
     (well_formed l \<and> well_formed r \<and> c = count l + count r \<and>
      s = size_sp l + size_sp r \<and> lv = max (level l) (level r) + 1)"

text \<open>The in-order sequence of per-section sizes that a span stands for.\<close>

fun sections :: "span \<Rightarrow> rat list" where
  "sections (Leaf c s) = replicate (nat c) (s / of_int c)"
| "sections (Branch c s lv l r) = sections l @ sections r"

text \<open>The AVL balance invariant, checked at every branch from the root down.\<close>

fun balanced :: "span \<Rightarrow> bool" where
  "balanced (Leaf c s) = True"
| "balanced (Branch c s lv l r) = (\<bar>level l - level r\<bar> \<le> 1 \<and> balanced l \<and> balanced r)"

definition list_sections :: "section_list \<Rightarrow> rat list" where
  "list_sections rt = (case rt of None \<Rightarrow> [] | Some sp \<Rightarrow> sections sp)"

definition list_ok :: "section_list \<Rightarrow> bool" where
  "list_ok rt = (case rt of None \<Rightarrow> True | Some sp \<Rightarrow> well_formed sp)"

text \<open>The balance condition at the root alone, as the loop of \<^verbatim>\<open>remove\<close> tests it.\<close>

definition list_balanced_root :: "section_list \<Rightarrow> bool" where
  "list_balanced_root rt = (case rt of None \<Rightarrow> True | Some sp \<Rightarrow> \<not> unbalanced sp)"

definition list_balanced :: "section_list \<Rightarrow> bool" where
  "list_balanced rt = (case rt of None \<Rightarrow> True | Some sp \<Rightarrow> balanced sp)"

text \<open>
  The list states a program can reach: a new list is empty, and every call of a mutating
  method that returns leads from a reachable state to a reachable state.
\<close>

inductive reachable :: "section_list \<Rightarrow> bool" where
  reachable_new: "reachable None"
| reachable_insert:
    "reachable rt \<Longrightarrow> SectionList_insert rt index cnt sz = Inr (rt', res) \<Longrightarrow> reachable rt'"
| reachable_remove:
    "reachable rt \<Longrightarrow> SectionList_remove rt index cnt = Some (Inr (rt', res)) \<Longrightarrow> reachable rt'"
| reachable_resize:
    "reachable rt \<Longrightarrow> SectionList_resize rt index cnt sz = Some (Inr (rt', res)) \<Longrightarrow>
     reachable rt'"

text \<open>A sequence of method calls, run from a given state.\<close>

datatype call = Insert rat rat rat | Remove rat rat | Resize rat rat rat

fun do_call :: "section_list \<Rightarrow> call \<Rightarrow> (error + section_list) option" where
  "do_call rt (Insert index cnt sz) =
     (case SectionList_insert rt index cnt sz of
        Inl e \<Rightarrow> Some (Inl e)
      | Inr (rt', res) \<Rightarrow> Some (Inr rt'))"
| "do_call rt (Remove index cnt) =
     (case SectionList_remove rt index cnt of
        None \<Rightarrow> None
      | Some (Inl e) \<Rightarrow> Some (Inl e)
      | Some (Inr (rt', res)) \<Rightarrow> Some (Inr rt'))"
| "do_call rt (Resize index cnt sz) =
     (case SectionList_resize rt index cnt sz of
        None \<Rightarrow> None
      | Some (Inl e) \<Rightarrow> Some (Inl e)
      | Some (Inr (rt', res)) \<Rightarrow> Some (Inr rt'))"

fun run_calls :: "section_list \<Rightarrow> call list \<Rightarrow> (error + section_list) option" where
  "run_calls rt [] = Some (Inr rt)"
| "run_calls rt (c # cs) =
     (case do_call rt c of
        None \<Rightarrow> None
      | Some (Inl e) \<Rightarrow> Some (Inl e)
      | Some (Inr rt') \<Rightarrow> run_calls rt' cs)"

text \<open>
  Two concrete trees. The first is the list after the calls \<^verbatim>\<open>insert(0, 2, 1)\<close>,
  \<^verbatim>\<open>insert(1, 2, 2)\<close>, \<^verbatim>\<open>insert(2, 2, 1)\<close>, \<^verbatim>\<open>insert(0, 2, 2)\<close>, \<^verbatim>\<open>insert(1, 2, 1)\<close> and
  \<^verbatim>\<open>insert(5, 2, 1)\<close> on a new list: twelve sections in nine leaves. The second is that
  list after \<^verbatim>\<open>remove(10, 1)\<close>.
\<close>

abbreviation nine_leaves_left :: span where
  "nine_leaves_left \<equiv>
     Branch 8 11 3
       (Branch 4 6 2 (Branch 3 4 1 (Leaf 1 2) (Leaf 2 2)) (Leaf 1 2))
       (Branch 4 5 2 (Leaf 1 1) (Branch 3 4 1 (Leaf 2 2) (Leaf 1 2)))"

abbreviation nine_leaves :: span where
  "nine_leaves \<equiv>
     Branch 12 16 4 nine_leaves_left
       (Branch 4 5 2 (Leaf 2 2) (Branch 2 3 1 (Leaf 1 2) (Leaf 1 1)))"

abbreviation eight_leaves :: span where
  "eight_leaves \<equiv>
     Branch 11 14 4
       (Branch 5 7 3
          (Branch 4 6 2 (Branch 3 4 1 (Leaf 1 2) (Leaf 2 2)) (Leaf 1 2))
          (Leaf 1 1))
       (Branch 6 7 2 (Branch 3 4 1 (Leaf 2 2) (Leaf 1 2))
          (Branch 3 3 1 (Leaf 2 2) (Leaf 1 1)))"

abbreviation build_nine_leaves :: "call list" where
  "build_nine_leaves \<equiv>
     [Insert 0 2 1, Insert 1 2 2, Insert 2 2 1, Insert 0 2 2, Insert 1 2 1, Insert 5 2 1]"

text \<open>
  The measure of the rebalancing loop. A rotation never raises the larger of the two
  child levels. It lowers it, except for a double rotation applied where the two
  grandchildren on the heavy side have equal levels (a tie); a pass that follows such a
  rotation is a single rotation.
\<close>

fun tie :: "span \<Rightarrow> bool" where
  "tie (Leaf c s) = False"
| "tie (Branch c s lv a b) = (level a = level b)"

fun loop_measure :: "span \<Rightarrow> int" where
  "loop_measure (Leaf c s) = 0"
| "loop_measure (Branch c s lv l r) =
     2 * max (level l) (level r) +
     (if (level l - level r > 1 \<and> tie l) \<or> (level l - level r < - 1 \<and> tie r) then 1 else 0)"

text \<open>
  The specification's reading of \<^verbatim>\<open>resize\<close>: remove the requested range, then insert the
  number of sections actually removed, with the new size, at the same starting index.
\<close>

definition resize_spec ::
    "section_list \<Rightarrow> rat \<Rightarrow> rat \<Rightarrow> rat \<Rightarrow> (error + (section_list \<times> int)) option" where
  "resize_spec rt index cnt sz =
     (case SectionList_remove rt index cnt of
        None \<Rightarrow> None
      | Some (Inl e) \<Rightarrow> Some (Inl e)
      | Some (Inr (rt', n)) \<Rightarrow>
          (case SectionList_insert rt' (of_int (max 0 \<lfloor>index\<rfloor>)) (of_int n) sz of
             Inl e \<Rightarrow> Some (Inl e)
           | Inr (rt'', i) \<Rightarrow> Some (Inr (rt'', n))))"

text \<open>
  The number of sections that \<^verbatim>\<open>remove\<close> and \<^verbatim>\<open>resize\<close> act on: the variable \<^verbatim>\<open>n\<close> of
  both methods, or 0 where they return early.
\<close>

definition removed_count :: "section_list \<Rightarrow> rat \<Rightarrow> rat \<Rightarrow> int" where
  "removed_count rt index cnt =
     (if \<lfloor>cnt\<rfloor> \<le> 0 then 0
      else max 0 (min (\<lfloor>index\<rfloor> + \<lfloor>cnt\<rfloor> - 1) (list_count rt - 1) - max 0 \<lfloor>index\<rfloor> + 1))"

section \<open>Well-formed spans\<close>

lemma wf_level_nonneg: "well_formed t \<Longrightarrow> 0 \<le> level t"
  by (induction t) auto

lemma wf_count_pos: "well_formed t \<Longrightarrow> 0 < count t"
  by (induction t) auto

lemma wf_size_nonneg: "well_formed t \<Longrightarrow> 0 \<le> size_sp t"
  by (induction t) auto

lemma wf_level_zero: "well_formed t \<Longrightarrow> \<not> 0 < level t \<Longrightarrow> \<exists>c s. t = Leaf c s"
  by (cases t) (auto dest: wf_level_nonneg)

lemma length_sections: "well_formed t \<Longrightarrow> length (sections t) = nat (count t)"
proof (induction t)
  case (Leaf c s)
  then show ?case by simp
next
  case (Branch c s lv l r)
  then show ?case
    using wf_count_pos[of l] wf_count_pos[of r] by (simp add: nat_add_distrib)
qed



lemma updateBranch_createBranch: "updateBranch x l r = createBranch l r"
  by (simp add: updateBranch_def createBranch_def)

lemma createBranch_simps:
  "count (createBranch l r) = count l + count r"
  "size_sp (createBranch l r) = size_sp l + size_sp r"
  "level (createBranch l r) = max (level l) (level r) + 1"
  "sections (createBranch l r) = sections l @ sections r"
  "well_formed (createBranch l r) = (well_formed l \<and> well_formed r)"
  "unbalanced (createBranch l r) = (\<bar>level l - level r\<bar> > 1)"
  "balanced (createBranch l r) = (\<bar>level l - level r\<bar> \<le> 1 \<and> balanced l \<and> balanced r)"
  by (simp_all add: createBranch_def)

section \<open>Rebalancing a branch with well-formed children\<close>

text \<open>
  On well-formed children \<^verbatim>\<open>rebalance\<close> never reads a field of \<^verbatim>\<open>null\<close>; it returns one of
  five rearrangements of the same subtrees.
\<close>

lemma wf_branch_shape:
  assumes "well_formed t" "1 \<le> level t"
  obtains c s a b where "t = Branch c s (max (level a) (level b) + 1) a b"
    "well_formed a" "well_formed b"
  using assms by (cases t) auto

lemma rebalance_cases:
  assumes wl: "well_formed l" and wr: "well_formed r"
  obtains
    (LL) a b where "level l - level r > 1" "level l = max (level a) (level b) + 1"
      "level b < level a" "well_formed a" "well_formed b"
      "sections l = sections a @ sections b" "\<not> tie l"
      "rebalance (Branch c s lv l r) = Inr (createBranch a (createBranch b r))"
  | (LR) a b1 b2 where "level l - level r > 1"
      "level l = max (level a) (max (level b1) (level b2) + 1) + 1"
      "level a \<le> max (level b1) (level b2) + 1"
      "well_formed a" "well_formed b1" "well_formed b2"
      "sections l = sections a @ sections b1 @ sections b2"
      "tie l \<longleftrightarrow> level a = max (level b1) (level b2) + 1"
      "rebalance (Branch c s lv l r) =
         Inr (createBranch (createBranch a b1) (createBranch b2 r))"
      "balanced l \<Longrightarrow> max (level b1) (level b2) \<le> level a"
  | (RR) a b where "level l - level r < - 1" "level r = max (level a) (level b) + 1"
      "level a < level b" "well_formed a" "well_formed b"
      "sections r = sections a @ sections b" "\<not> tie r"
      "rebalance (Branch c s lv l r) = Inr (createBranch (createBranch l a) b)"
  | (RL) a1 a2 b where "level l - level r < - 1"
      "level r = max (max (level a1) (level a2) + 1) (level b) + 1"
      "level b \<le> max (level a1) (level a2) + 1"
      "well_formed a1" "well_formed a2" "well_formed b"
      "sections r = sections a1 @ sections a2 @ sections b"
      "tie r \<longleftrightarrow> max (level a1) (level a2) + 1 = level b"
      "rebalance (Branch c s lv l r) =
         Inr (createBranch (createBranch l a1) (createBranch a2 b))"
      "balanced r \<Longrightarrow> max (level a1) (level a2) \<le> level b"
  | (NO) "\<bar>level l - level r\<bar> \<le> 1"
      "rebalance (Branch c s lv l r) = Inr (createBranch l r)"
proof -
  have nl: "0 \<le> level l" and nr: "0 \<le> level r"
    using wl wr by (simp_all add: wf_level_nonneg)
  consider (left) "level l - level r > 1" | (right) "level l - level r < - 1"
    | (none) "\<bar>level l - level r\<bar> \<le> 1" by linarith
  then show thesis
  proof cases
    case left
    then have "1 \<le> level l" using nr by simp
    from wf_branch_shape[OF wl this] obtain lc ls a b where
      l: "l = Branch lc ls (max (level a) (level b) + 1) a b" and wa: "well_formed a"
      and wb: "well_formed b" by blast
    show thesis
    proof (cases "level b < level a")
      case True
      show thesis
        by (rule LL[of a b])
           (use left True wa wb in \<open>simp_all add: l updateBranch_createBranch\<close>)
    next
      case False
      have "0 \<le> level a" using wa by (rule wf_level_nonneg)
      then have "1 \<le> level b" using False left nr by (simp add: l)
      from wf_branch_shape[OF wb this] obtain bc bs b1 b2 where
        b: "b = Branch bc bs (max (level b1) (level b2) + 1) b1 b2"
        and wb1: "well_formed b1" and wb2: "well_formed b2" by blast
      show thesis
        by (rule LR[of a b1 b2])
           (use left False wa wb1 wb2 in \<open>simp_all add: l b updateBranch_createBranch\<close>)
    qed
  next
    case right
    then have "1 \<le> level r" using nl by simp
    from wf_branch_shape[OF wr this] obtain rc rs a b where
      r: "r = Branch rc rs (max (level a) (level b) + 1) a b" and wa: "well_formed a"
      and wb: "well_formed b" by blast
    show thesis
    proof (cases "level a < level b")
      case True
      show thesis
        by (rule RR[of a b])
           (use right True wa wb in \<open>simp_all add: r updateBranch_createBranch\<close>)
    next
      case False
      have "0 \<le> level b" using wb by (rule wf_level_nonneg)
      then have "1 \<le> level a" using False right nl by (simp add: r)
      from wf_branch_shape[OF wa this] obtain ac as a1 a2 where
        a: "a = Branch ac as (max (level a1) (level a2) + 1) a1 a2"
        and wa1: "well_formed a1" and wa2: "well_formed a2" by blast
      show thesis
        by (rule RL[of a1 a2 b])
           (use right False wa1 wa2 wb in \<open>simp_all add: r a updateBranch_createBranch\<close>)
    qed
  next
    case none
    then have "\<not> 1 < level l - level r" "\<not> level l - level r < - 1" by linarith+
    then show thesis
      using none by (intro NO) (simp_all add: updateBranch_createBranch)
  qed
qed

lemma rebalance_wf:
  assumes "well_formed l" "well_formed r"
  shows "\<exists>t'. rebalance (Branch c s lv l r) = Inr t' \<and> well_formed t' \<and>
           sections t' = sections l @ sections r \<and> 1 \<le> level t'"
  using assms
proof (cases rule: rebalance_cases[of l r c s lv])
  case (LL a b)
  show ?thesis unfolding LL(8)
    using LL(4,5,6) assms wf_level_nonneg[of a] by (simp add: createBranch_simps)
next
  case (LR a b1 b2)
  show ?thesis unfolding LR(9)
    using LR(4,5,6,7) assms wf_level_nonneg[of a] by (simp add: createBranch_simps)
next
  case (RR a b)
  show ?thesis unfolding RR(8)
    using RR(4,5,6) assms wf_level_nonneg[of b] by (simp add: createBranch_simps)
next
  case (RL a1 a2 b)
  show ?thesis unfolding RL(9)
    using RL(4,5,6,7) assms wf_level_nonneg[of b] by (simp add: createBranch_simps)
next
  case NO
  show ?thesis unfolding NO(2)
    using assms wf_level_nonneg[of l] by (simp add: createBranch_simps)
qed

section \<open>The rebalancing loop ends\<close>

lemma loop_measure_createBranch:
  "loop_measure (createBranch l r) =
     2 * max (level l) (level r) +
     (if (level l - level r > 1 \<and> tie l) \<or> (level l - level r < - 1 \<and> tie r) then 1 else 0)"
  by (simp add: createBranch_def)

lemma tie_createBranch: "tie (createBranch a b) = (level a = level b)"
  by (simp add: createBranch_def)

lemma loop_measure_upper:
  "loop_measure (createBranch l r) \<le> 2 * max (level l) (level r) + 1"
  by (simp add: createBranch_def)

lemma loop_measure_lower:
  "2 * max (level l) (level r) \<le> loop_measure (Branch c s lv l r)"
  by simp

lemma rebalance_measure:
  assumes "well_formed l" "well_formed r" "rebalance (Branch c s lv l r) = Inr t'"
    "unbalanced t'"
  shows "loop_measure t' < loop_measure (Branch c s lv l r)"
  using assms(1,2)
proof (cases rule: rebalance_cases[of l r c s lv])
  case (LL a b)
  have t': "t' = createBranch a (createBranch b r)" using assms(3) unfolding LL(8) by simp
  have "max (level a) (level (createBranch b r)) \<le> level a"
    using LL(1,2,3) by (auto simp: createBranch_simps max_def split: if_splits)
  moreover have "level a + 1 \<le> max (level l) (level r)"
    using LL(1,2,3) by (auto simp: max_def split: if_splits)
  ultimately show ?thesis
    using loop_measure_upper[of a "createBranch b r"] loop_measure_lower[of l r c s lv]
    unfolding t' by linarith
next
  case (LR a b1 b2)
  have t': "t' = createBranch (createBranch a b1) (createBranch b2 r)"
    using assms(3) unfolding LR(9) by simp
  show ?thesis
  proof (cases "level a = max (level b1) (level b2) + 1")
    case True
    have "loop_measure t' = 2 * level a + 2"
      using LR(1,2) True assms(4)
      by (auto simp: t' loop_measure_createBranch createBranch_simps tie_createBranch max_def
               split: if_splits)
    moreover have "loop_measure (Branch c s lv l r) = 2 * level a + 3"
      using LR(1,2,8) True by (auto simp: max_def split: if_splits)
    ultimately show ?thesis by linarith
  next
    case False
    have "max (level (createBranch a b1)) (level (createBranch b2 r))
            \<le> max (level b1) (level b2) + 1"
      using LR(1,2,3) False by (auto simp: createBranch_simps max_def split: if_splits)
    moreover have "max (level b1) (level b2) + 2 \<le> max (level l) (level r)"
      using LR(1,2,3) False by (auto simp: max_def split: if_splits)
    ultimately show ?thesis
      using loop_measure_upper[of "createBranch a b1" "createBranch b2 r"]
        loop_measure_lower[of l r c s lv]
      unfolding t' by linarith
  qed
next
  case (RR a b)
  have t': "t' = createBranch (createBranch l a) b" using assms(3) unfolding RR(8) by simp
  have "max (level (createBranch l a)) (level b) \<le> level b"
    using RR(1,2,3) by (auto simp: createBranch_simps max_def split: if_splits)
  moreover have "level b + 1 \<le> max (level l) (level r)"
    using RR(1,2,3) by (auto simp: max_def split: if_splits)
  ultimately show ?thesis
    using loop_measure_upper[of "createBranch l a" b] loop_measure_lower[of l r c s lv]
    unfolding t' by linarith
next
  case (RL a1 a2 b)
  have t': "t' = createBranch (createBranch l a1) (createBranch a2 b)"
    using assms(3) unfolding RL(9) by simp
  show ?thesis
  proof (cases "level b = max (level a1) (level a2) + 1")
    case True
    have "loop_measure t' = 2 * level b + 2"
      using RL(1,2) True assms(4)
      by (auto simp: t' loop_measure_createBranch createBranch_simps tie_createBranch max_def
               split: if_splits)
    moreover have "loop_measure (Branch c s lv l r) = 2 * level b + 3"
      using RL(1,2,8) True by (auto simp: max_def split: if_splits)
    ultimately show ?thesis by linarith
  next
    case False
    have "max (level (createBranch l a1)) (level (createBranch a2 b))
            \<le> max (level a1) (level a2) + 1"
      using RL(1,2,3) False by (auto simp: createBranch_simps max_def split: if_splits)
    moreover have "max (level a1) (level a2) + 2 \<le> max (level l) (level r)"
      using RL(1,2,3) False by (auto simp: max_def split: if_splits)
    ultimately show ?thesis
      using loop_measure_upper[of "createBranch l a1" "createBranch a2 b"]
        loop_measure_lower[of l r c s lv]
      unfolding t' by linarith
  qed
next
  case NO
  have "t' = createBranch l r" using assms(3) unfolding NO(2) by simp
  then show ?thesis using NO(1) assms(4) by (simp add: createBranch_simps)
qed


lemma rebalance_loop_ok:
  assumes "well_formed l" "well_formed r"
  shows "\<exists>t'. rebalance_loop (Branch c s lv l r) = Some (Inr t') \<and> well_formed t' \<and>
           sections t' = sections l @ sections r \<and> \<not> unbalanced t' \<and> 1 \<le> level t'"
  using assms
proof (induction "nat (loop_measure (Branch c s lv l r))" arbitrary: c s lv l r
        rule: less_induct)
  case less
  from rebalance_wf[OF less.prems, of c s lv] obtain t1 where
    t1: "rebalance (Branch c s lv l r) = Inr t1" "well_formed t1"
      "sections t1 = sections l @ sections r" "1 \<le> level t1" by blast
  show ?case
  proof (cases "unbalanced t1")
    case False
    then show ?thesis
      using t1 by (subst rebalance_loop.simps) simp
  next
    case True
    then obtain c1 s1 lv1 l1 r1 where sh: "t1 = Branch c1 s1 lv1 l1 r1"
      by (cases t1) auto
    have wf1: "well_formed l1" "well_formed r1" using t1(2) sh by auto
    have "loop_measure t1 < loop_measure (Branch c s lv l r)"
      by (rule rebalance_measure[OF less.prems t1(1) True])
    moreover have "0 \<le> loop_measure t1"
      using wf_level_nonneg[OF wf1(1)] by (simp add: sh)
    ultimately have "nat (loop_measure (Branch c1 s1 lv1 l1 r1))
                       < nat (loop_measure (Branch c s lv l r))"
      using sh by simp
    from less.hyps[OF this wf1] obtain t' where
      t': "rebalance_loop t1 = Some (Inr t')" "well_formed t'"
        "sections t' = sections l1 @ sections r1" "\<not> unbalanced t'" "1 \<le> level t'"
      unfolding sh by blast
    have "rebalance_loop (Branch c s lv l r) = rebalance_loop t1"
      using t1(1) True by (subst rebalance_loop.simps) simp
    then show ?thesis using t' t1(3) sh by simp
  qed
qed

lemma rebalance_loop_wf:
  assumes "well_formed t" "0 < level t"
  shows "\<exists>t'. rebalance_loop t = Some (Inr t') \<and> well_formed t' \<and>
           sections t' = sections t \<and> \<not> unbalanced t'"
proof -
  from assms obtain c s lv l r where t: "t = Branch c s lv l r" by (cases t) auto
  then have "well_formed l" "well_formed r" using assms(1) by simp_all
  from rebalance_loop_ok[OF this, of c s lv] show ?thesis by (auto simp: t)
qed

lemma finish_remove_ok:
  assumes "list_ok l" "list_ok r" "l \<noteq> None \<or> r \<noteq> None" "0 < lv"
  shows "\<exists>t'. finish_remove c s lv l r = Some (Inr (Some t')) \<and> well_formed t' \<and>
           sections t' = list_sections l @ list_sections r \<and> \<not> unbalanced t'"
proof -
  have one: "\<exists>t'. (if level sp > 0 then
                 (case rebalance_loop sp of
                    None \<Rightarrow> None
                  | Some (Inl e) \<Rightarrow> Some (Inl e)
                  | Some (Inr sp') \<Rightarrow> Some (Inr (Some sp')))
               else Some (Inr (Some sp))) = Some (Inr (Some t')) \<and> well_formed t' \<and>
              sections t' = sections sp \<and> \<not> unbalanced t'"
    if wsp: "well_formed sp" for sp
  proof (cases "level sp > 0")
    case True
    from rebalance_loop_wf[OF wsp True] show ?thesis using True by auto
  next
    case False
    then obtain lc ls where "sp = Leaf lc ls" using wf_level_zero[OF wsp] by auto
    then show ?thesis using wsp by simp
  qed
  show ?thesis
  proof (cases l)
    case None
    then obtain b where r: "r = Some b" using assms(3) by auto
    then have "well_formed b" using assms(2) by (simp add: list_ok_def)
    from one[OF this] show ?thesis
      by (simp add: finish_remove_def hoist_def None r list_sections_def)
  next
    case (Some a)
    then have wa: "well_formed a" using assms(1) by (simp add: list_ok_def)
    show ?thesis
    proof (cases r)
      case None
      from one[OF wa] show ?thesis
        by (simp add: finish_remove_def hoist_def None Some list_sections_def)
    next
      case (Some b)
      then have wb: "well_formed b" using assms(2) by (simp add: list_ok_def)
      from rebalance_loop_ok[OF wa wb, of c s lv] show ?thesis
        using assms(4) \<open>l = Some a\<close>
        by (auto simp: finish_remove_def hoist_def Some list_sections_def)
    qed
  qed
qed

section \<open>Insertion and removal on well-formed spans\<close>

text \<open>
  Within its documented domain \<^verbatim>\<open>insert\<close> returns a well-formed span whose sections are
  the old ones with the new run spliced in at the index.
\<close>

lemma insert_leaf_ok:
  assumes "well_formed (Leaf c s)" "0 \<le> i" "i \<le> c" "0 < n" "0 \<le> z"
  shows "\<exists>t'. insert_span (Leaf c s) i n z = Inr t' \<and> well_formed t' \<and>
           sections t' = take (nat i) (sections (Leaf c s)) @ replicate (nat n) z
                           @ drop (nat i) (sections (Leaf c s))"
proof -
  from assms have c: "0 < c" and s: "0 \<le> s" by simp_all
  have div: "js_div s (of_int c) = Some (s / of_int c)"
    using c by (simp add: js_div_def)
  show ?thesis
  proof (cases "s / of_int c = z")
    case True
    then have sz: "s = z * of_int c" using c by (simp add: field_simps)
    have "(s + of_int n * z) / of_int (c + n) = z"
      using c assms(4) by (simp add: sz field_simps)
    moreover have "nat (c + n) = min (nat c) (nat i) + (nat n + (nat c - nat i))"
      using assms c by simp
    ultimately show ?thesis
      using True div c s assms by (simp add: replicate_add[symmetric])
  next
    case False
    note ne = this
    show ?thesis
    proof (cases "i = 0")
      case True
      then show ?thesis
        using ne div c s assms by (simp add: createBranch_def createLeaf_def)
    next
      case False
      note i0 = this
      show ?thesis
      proof (cases "c \<le> i")
        case True
        then show ?thesis
          using ne div c s assms i0 by (simp add: createBranch_def createLeaf_def)
      next
        case False
        then have "nat c = nat i + nat (c - i)" using assms by simp
        then have "replicate (nat c) (s / of_int c) =
                     replicate (nat i) (s / of_int c) @ replicate (nat (c - i)) (s / of_int c)"
          by (simp add: replicate_add)
        then show ?thesis
          using False ne div c s assms i0
          by (simp add: createBranch_def createLeaf_def updateBranch_def Let_def)
      qed
    qed
  qed
qed

lemma insert_span_ok:
  "well_formed t \<Longrightarrow> 0 \<le> i \<Longrightarrow> i \<le> count t \<Longrightarrow> 0 < n \<Longrightarrow> 0 \<le> z \<Longrightarrow>
   \<exists>t'. insert_span t i n z = Inr t' \<and> well_formed t' \<and>
      sections t' = take (nat i) (sections t) @ replicate (nat n) z @ drop (nat i) (sections t)"
proof (induction t arbitrary: i)
  case (Leaf c s)
  then show ?case using insert_leaf_ok[of c s i n z] by simp
next
  case (Branch c s lv l r)
  then have wl: "well_formed l" and wr: "well_formed r" and cc: "c = count l + count r"
    by simp_all
  have ll: "length (sections l) = nat (count l)" using wl by (rule length_sections)
  show ?case
  proof (cases "i < count l")
    case True
    with Branch.IH(1)[OF wl Branch.prems(2) _ Branch.prems(4,5)]
    obtain l' where l': "insert_span l i n z = Inr l'" "well_formed l'"
      "sections l' = take (nat i) (sections l) @ replicate (nat n) z @ drop (nat i) (sections l)"
      by auto
    from rebalance_wf[OF l'(2) wr, of c s lv]
    obtain t' where t': "rebalance (Branch c s lv l' r) = Inr t'" "well_formed t'"
      "sections t' = sections l' @ sections r" by auto
    have "nat i \<le> length (sections l)" using True Branch.prems(2) ll by simp
    then show ?thesis using True l' t' by simp
  next
    case False
    have "0 \<le> i - count l" "i - count l \<le> count r"
      using False Branch.prems(3) cc by simp_all
    with Branch.IH(2)[OF wr _ _ Branch.prems(4,5), of "i - count l"]
    obtain r' where r': "insert_span r (i - count l) n z = Inr r'" "well_formed r'"
      "sections r' = take (nat (i - count l)) (sections r) @ replicate (nat n) z
                       @ drop (nat (i - count l)) (sections r)"
      by auto
    from rebalance_wf[OF wl r'(2), of c s lv]
    obtain t' where t': "rebalance (Branch c s lv l r') = Inr t'" "well_formed t'"
      "sections t' = sections l @ sections r'" by auto
    have "nat i - length (sections l) = nat (i - count l)" "length (sections l) \<le> nat i"
      using False ll wf_count_pos[OF wl] by simp_all
    then show ?thesis using False r' t' by simp
  qed
qed

text \<open>
  Within its documented domain \<^verbatim>\<open>remove\<close> returns: \<^verbatim>\<open>null\<close> exactly when the range is the
  whole span, and otherwise a well-formed span without the sections of the range.
\<close>

lemma remove_leaf_ok:
  assumes "well_formed (Leaf c s)" "0 \<le> i" "0 < n" "i + n \<le> c"
  shows "\<exists>res. remove_span (Leaf c s) i n = Some (Inr res) \<and> list_ok res \<and>
           list_sections res = take (nat i) (sections (Leaf c s))
                                 @ drop (nat (i + n)) (sections (Leaf c s)) \<and>
           (res = None \<longleftrightarrow> n = c) \<and> list_balanced_root res"
proof (cases "n = c")
  case True
  then show ?thesis using assms by (simp add: list_ok_def list_sections_def list_balanced_root_def)
next
  case False
  have c: "0 < c" and s: "0 \<le> s" using assms by simp_all
  have "min (nat i) (nat c) + (nat c - nat (i + n)) = nat (c - n)"
    using assms by simp
  then have "replicate (min (nat i) (nat c)) (s / of_int c)
               @ replicate (nat c - nat (i + n)) (s / of_int c)
             = replicate (nat (c - n)) (s / of_int c)"
    unfolding replicate_add[symmetric] by simp
  moreover have "0 < c - n" using False assms by simp
  ultimately show ?thesis
    using False c s
    by (simp add: js_div_def list_ok_def list_sections_def list_balanced_root_def Let_def)
qed

lemma remove_span_ok:
  "well_formed t \<Longrightarrow> 0 \<le> i \<Longrightarrow> 0 < n \<Longrightarrow> i + n \<le> count t \<Longrightarrow>
   \<exists>res. remove_span t i n = Some (Inr res) \<and> list_ok res \<and>
      list_sections res = take (nat i) (sections t) @ drop (nat (i + n)) (sections t) \<and>
      (res = None \<longleftrightarrow> n = count t) \<and> list_balanced_root res"
proof (induction t arbitrary: i n)
  case (Leaf c s)
  then show ?case using remove_leaf_ok[of c s i n] by simp
next
  case (Branch c s lv l r)
  then have wl: "well_formed l" and wr: "well_formed r" and cc: "c = count l + count r"
    and lv: "lv = max (level l) (level r) + 1"
    by simp_all
  have lv0: "0 < lv" using lv wf_level_nonneg[OF wl] by simp
  have ll: "length (sections l) = nat (count l)" using wl by (rule length_sections)
  have lr: "length (sections r) = nat (count r)" using wr by (rule length_sections)
  have cl: "0 < count l" and cr: "0 < count r"
    using wl wr by (simp_all add: wf_count_pos)
  show ?case
  proof (cases "n = c")
    case True
    then have "i = 0" using Branch.prems by simp
    then show ?thesis using True cc ll lr cl cr
      by (simp add: list_ok_def list_sections_def list_balanced_root_def)
  next
    case False
    note nc = this
    consider (both) "i < count l" "i + n > count l"
      | (left) "i < count l" "i + n \<le> count l"
      | (right) "count l \<le> i" by linarith
    then show ?thesis
    proof cases
      case both
      define tail where "tail = count l - i"
      have "0 < tail" "i + tail \<le> count l" using both by (simp_all add: tail_def)
      from Branch.IH(1)[OF wl Branch.prems(2) this] obtain L where
        L: "remove_span l i tail = Some (Inr L)" "list_ok L"
          "list_sections L = take (nat i) (sections l) @ drop (nat (i + tail)) (sections l)"
          "L = None \<longleftrightarrow> tail = count l" by blast
      have "0 < n - tail" "0 + (n - tail) \<le> count r"
        using both Branch.prems cc by (simp_all add: tail_def)
      from Branch.IH(2)[OF wr _ this] obtain R where
        R: "remove_span r 0 (n - tail) = Some (Inr R)" "list_ok R"
          "list_sections R = take (nat 0) (sections r) @ drop (nat (0 + (n - tail))) (sections r)"
          "R = None \<longleftrightarrow> n - tail = count r" by auto
      have "L \<noteq> None \<or> R \<noteq> None" using L(4) R(4) nc cc by auto
      from finish_remove_ok[OF L(2) R(2) this lv0, of c s] obtain t' where
        t': "finish_remove c s lv L R = Some (Inr (Some t'))" "well_formed t'"
          "sections t' = list_sections L @ list_sections R" "\<not> unbalanced t'" by blast
      have "nat (i + tail) = length (sections l)" using ll cl by (simp add: tail_def)
      moreover have "nat (i + n) - length (sections l) = nat (n - tail)"
        "nat i \<le> length (sections l)" "length (sections l) \<le> nat (i + n)"
        using ll both Branch.prems by (simp_all add: tail_def)
      ultimately have "list_sections L @ list_sections R =
          take (nat i) (sections (Branch c s lv l r))
            @ drop (nat (i + n)) (sections (Branch c s lv l r))"
        using L(3) R(3) by simp
      then show ?thesis
        using both nc L(1) R(1) t'
        by (simp add: tail_def[symmetric] Let_def list_ok_def list_sections_def list_balanced_root_def)
    next
      case left
      from Branch.IH(1)[OF wl Branch.prems(2,3) left(2)] obtain L where
        L: "remove_span l i n = Some (Inr L)" "list_ok L"
          "list_sections L = take (nat i) (sections l) @ drop (nat (i + n)) (sections l)"
          "L = None \<longleftrightarrow> n = count l" by blast
      have okr: "list_ok (Some r)" using wr by (simp add: list_ok_def)
      from finish_remove_ok[OF L(2) okr _ lv0, of c s] obtain t' where
        t': "finish_remove c s lv L (Some r) = Some (Inr (Some t'))" "well_formed t'"
          "sections t' = list_sections L @ list_sections (Some r)" "\<not> unbalanced t'" by blast
      have "nat i \<le> length (sections l)" "nat (i + n) \<le> length (sections l)"
        using ll left Branch.prems by simp_all
      then have "list_sections L @ list_sections (Some r) =
          take (nat i) (sections (Branch c s lv l r))
            @ drop (nat (i + n)) (sections (Branch c s lv l r))"
        using L(3) by (simp add: list_sections_def)
      then show ?thesis
        using left nc L(1) t'
        by (simp add: Let_def list_ok_def list_sections_def list_balanced_root_def)
    next
      case right
      have "0 \<le> i - count l" "i - count l + n \<le> count r"
        using right Branch.prems cc by simp_all
      from Branch.IH(2)[OF wr this(1) Branch.prems(3) this(2)] obtain R where
        R: "remove_span r (i - count l) n = Some (Inr R)" "list_ok R"
          "list_sections R = take (nat (i - count l)) (sections r)
                               @ drop (nat (i - count l + n)) (sections r)"
          "R = None \<longleftrightarrow> n = count r" by blast
      have okl: "list_ok (Some l)" using wl by (simp add: list_ok_def)
      from finish_remove_ok[OF okl R(2) _ lv0, of c s] obtain t' where
        t': "finish_remove c s lv (Some l) R = Some (Inr (Some t'))" "well_formed t'"
          "sections t' = list_sections (Some l) @ list_sections R" "\<not> unbalanced t'" by blast
      have "nat i - length (sections l) = nat (i - count l)"
        "nat (i + n) - length (sections l) = nat (i - count l + n)"
        "length (sections l) \<le> nat i" "length (sections l) \<le> nat (i + n)"
        using ll right cl Branch.prems by simp_all
      then have "list_sections (Some l) @ list_sections R =
          take (nat i) (sections (Branch c s lv l r))
            @ drop (nat (i + n)) (sections (Branch c s lv l r))"
        using R(3) by (simp add: list_sections_def)
      then show ?thesis
        using right nc R(1) t'
        by (simp add: Let_def list_ok_def list_sections_def list_balanced_root_def)
    qed
  qed
qed

section \<open>The methods on well-formed lists\<close>

lemma list_count_sections: "list_ok rt \<Longrightarrow> list_count rt = int (length (list_sections rt))"
  by (cases rt)
     (simp_all add: list_ok_def list_count_def list_sections_def length_sections wf_count_pos
        order_less_imp_le)


lemma SectionList_insert_noop:
  "\<lfloor>cnt\<rfloor> \<le> 0 \<Longrightarrow> SectionList_insert rt index cnt sz = Inr (rt, - 1)"
  by (simp add: SectionList_insert_def)

lemma SectionList_insert_ok:
  assumes "list_ok rt" "0 < \<lfloor>cnt\<rfloor>"
  shows "\<exists>rt'. SectionList_insert rt index cnt sz =
                 Inr (rt', max 0 (min \<lfloor>index\<rfloor> (list_count rt))) \<and>
           list_ok rt' \<and>
           list_sections rt' =
             take (nat (max 0 (min \<lfloor>index\<rfloor> (list_count rt)))) (list_sections rt)
               @ replicate (nat \<lfloor>cnt\<rfloor>) (max 0 sz)
               @ drop (nat (max 0 (min \<lfloor>index\<rfloor> (list_count rt)))) (list_sections rt)"
proof -
  define ct where "ct = \<lfloor>cnt\<rfloor>"
  define s where "s = \<lfloor>index\<rfloor>"
  have ct: "0 < ct" using assms(2) by (simp only: ct_def)
  show ?thesis
    unfolding ct_def[symmetric] s_def[symmetric]
  proof (cases rt)
    case None
    have "SectionList_insert rt index cnt sz =
            Inr (Some (createLeaf ct (of_int ct * max 0 sz)), 0)"
      unfolding SectionList_insert_def Let_def ct_def[symmetric] using ct by (simp add: None)
    moreover have "max 0 (min s (list_count rt)) = 0" by (simp add: None list_count_def)
    ultimately show "\<exists>rt'. SectionList_insert rt index cnt sz =
                 Inr (rt', max 0 (min s (list_count rt))) \<and> list_ok rt' \<and>
           list_sections rt' = take (nat (max 0 (min s (list_count rt)))) (list_sections rt)
               @ replicate (nat ct) (max 0 sz)
               @ drop (nat (max 0 (min s (list_count rt)))) (list_sections rt)"
      using ct by (simp add: None list_ok_def list_sections_def createLeaf_def)
  next
    case (Some sp)
    define i where "i = max 0 (min s (count sp))"
    have wf: "well_formed sp" using assms(1) by (simp add: Some list_ok_def)
    have "0 \<le> i" "i \<le> count sp" using wf_count_pos[OF wf] by (simp_all add: i_def)
    from insert_span_ok[OF wf this ct, of "max 0 sz"] obtain t' where
      t': "insert_span sp i ct (max 0 sz) = Inr t'" "well_formed t'"
        "sections t' = take (nat i) (sections sp) @ replicate (nat ct) (max 0 sz)
                         @ drop (nat i) (sections sp)" by auto
    have "SectionList_insert rt index cnt sz = Inr (Some t', i)"
      unfolding SectionList_insert_def Let_def ct_def[symmetric] s_def[symmetric] Some
        option.case i_def[symmetric]
      using ct t'(1) by simp
    moreover have "max 0 (min s (list_count rt)) = i" by (simp add: Some list_count_def i_def)
    ultimately show "\<exists>rt'. SectionList_insert rt index cnt sz =
                 Inr (rt', max 0 (min s (list_count rt))) \<and> list_ok rt' \<and>
           list_sections rt' = take (nat (max 0 (min s (list_count rt)))) (list_sections rt)
               @ replicate (nat ct) (max 0 sz)
               @ drop (nat (max 0 (min s (list_count rt)))) (list_sections rt)"
      using t'(2,3) by (simp add: Some list_ok_def list_sections_def)
  qed
qed

text \<open>
  The range computation shared by \<^verbatim>\<open>remove\<close> and \<^verbatim>\<open>resize\<close>, on the floored arguments.
\<close>

lemma range_cases:
  fixes s ct :: int
  assumes "well_formed sp"
  defines "i \<equiv> max 0 s"
  defines "n \<equiv> min (s + ct - 1) (count sp - 1) - i + 1"
  obtains (noop) "ct \<le> 0 \<or> n \<le> 0"
        "(if ct \<le> 0 then 0 else max 0 n) = 0"
    | (range) "0 < ct" "0 < n" "0 \<le> i" "i + n \<le> count sp"
        "(if ct \<le> 0 then 0 else max 0 n) = n"
proof (cases "ct \<le> 0 \<or> n \<le> 0")
  case True
  then show thesis by (intro noop) auto
next
  case False
  then show thesis by (intro range) (auto simp: i_def n_def)
qed

lemma SectionList_remove_ok:
  assumes "list_ok rt"
  shows "\<exists>rt'. SectionList_remove rt index cnt =
                 Some (Inr (rt', removed_count rt index cnt)) \<and>
           list_ok rt' \<and>
           list_sections rt' =
             take (nat (max 0 \<lfloor>index\<rfloor>)) (list_sections rt)
               @ drop (nat (max 0 \<lfloor>index\<rfloor> + removed_count rt index cnt)) (list_sections rt)"
proof (cases rt)
  case None
  then show ?thesis
    by (simp add: SectionList_remove_def removed_count_def list_count_def list_ok_def
          list_sections_def)
next
  case (Some sp)
  have wf: "well_formed sp" using assms(1) by (simp add: Some list_ok_def)
  define ct where "ct = \<lfloor>cnt\<rfloor>"
  define s where "s = \<lfloor>index\<rfloor>"
  define i where "i = max 0 s"
  define n where "n = min (s + ct - 1) (count sp - 1) - i + 1"
  have rc: "removed_count rt index cnt = (if ct \<le> 0 then 0 else max 0 n)"
    unfolding removed_count_def Some list_count_def option.case ct_def s_def i_def n_def
    by (rule refl)
  have rm: "SectionList_remove rt index cnt =
      (if ct \<le> 0 then Some (Inr (rt, 0))
       else if n \<le> 0 then Some (Inr (rt, 0))
       else (case remove_span sp i n of
               None \<Rightarrow> None
             | Some (Inl e) \<Rightarrow> Some (Inl e)
             | Some (Inr rt') \<Rightarrow> Some (Inr (rt', n))))"
    unfolding SectionList_remove_def Some option.case Let_def ct_def s_def i_def n_def
    by (rule refl)
  from wf show ?thesis
  proof (cases rule: range_cases[where sp=sp and s=s and ct=ct])
    case noop
    then have "removed_count rt index cnt = 0" "SectionList_remove rt index cnt = Some (Inr (rt, 0))"
      unfolding rc rm i_def[symmetric] n_def[symmetric] by auto
    then show ?thesis using assms by simp
  next
    case range
    then have in_range: "0 < ct" "0 < n" "0 \<le> i" "i + n \<le> count sp"
      and rcn: "removed_count rt index cnt = n"
      unfolding rc i_def[symmetric] n_def[symmetric] by simp_all
    from remove_span_ok[OF wf in_range(3,2,4)] obtain res where
      res: "remove_span sp i n = Some (Inr res)" "list_ok res"
        "list_sections res = take (nat i) (sections sp) @ drop (nat (i + n)) (sections sp)"
      by blast
    have "SectionList_remove rt index cnt = Some (Inr (res, n))"
      unfolding rm using in_range res(1) by simp
    then show ?thesis
      unfolding rcn s_def[symmetric] i_def[symmetric]
      using res(2,3) by (simp add: Some list_sections_def)
  qed
qed

lemma SectionList_resize_ok:
  assumes "list_ok rt"
  shows "\<exists>rt'. SectionList_resize rt index cnt sz =
                 Some (Inr (rt', removed_count rt index cnt)) \<and>
           list_ok rt' \<and>
           list_sections rt' =
             take (nat (max 0 \<lfloor>index\<rfloor>)) (list_sections rt)
               @ replicate (nat (removed_count rt index cnt)) (max 0 sz)
               @ drop (nat (max 0 \<lfloor>index\<rfloor> + removed_count rt index cnt)) (list_sections rt)"
proof (cases rt)
  case None
  then show ?thesis
    by (simp add: SectionList_resize_def removed_count_def list_count_def list_ok_def
          list_sections_def)
next
  case (Some sp)
  have wf: "well_formed sp" using assms(1) by (simp add: Some list_ok_def)
  have len: "length (sections sp) = nat (count sp)" using wf by (rule length_sections)
  define ct where "ct = \<lfloor>cnt\<rfloor>"
  define s where "s = \<lfloor>index\<rfloor>"
  define i where "i = max 0 s"
  define n where "n = min (s + ct - 1) (count sp - 1) - i + 1"
  have rc: "removed_count rt index cnt = (if ct \<le> 0 then 0 else max 0 n)"
    unfolding removed_count_def Some list_count_def option.case ct_def s_def i_def n_def
    by (rule refl)
  have rs: "SectionList_resize rt index cnt sz =
      (if ct \<le> 0 then Some (Inr (rt, 0))
       else if n \<le> 0 then Some (Inr (rt, 0))
       else (case remove_span sp i n of
               None \<Rightarrow> None
             | Some (Inl e) \<Rightarrow> Some (Inl e)
             | Some (Inr None) \<Rightarrow> Some (Inr (Some (createLeaf n (of_int n * max 0 sz)), n))
             | Some (Inr (Some sp')) \<Rightarrow>
                 (case insert_span sp' i n (max 0 sz) of
                    Inl e \<Rightarrow> Some (Inl e)
                  | Inr sp'' \<Rightarrow> Some (Inr (Some sp'', n)))))"
    unfolding SectionList_resize_def Some option.case Let_def ct_def s_def i_def n_def
    by (rule refl)
  from wf show ?thesis
  proof (cases rule: range_cases[where sp=sp and s=s and ct=ct])
    case noop
    then have "removed_count rt index cnt = 0"
      "SectionList_resize rt index cnt sz = Some (Inr (rt, 0))"
      unfolding rc rs i_def[symmetric] n_def[symmetric] by auto
    then show ?thesis using assms by simp
  next
    case range
    then have in_range: "0 < ct" "0 < n" "0 \<le> i" "i + n \<le> count sp"
      and rcn: "removed_count rt index cnt = n"
      unfolding rc i_def[symmetric] n_def[symmetric] by simp_all
    from remove_span_ok[OF wf in_range(3,2,4)] obtain res where
      res: "remove_span sp i n = Some (Inr res)" "list_ok res"
        "list_sections res = take (nat i) (sections sp) @ drop (nat (i + n)) (sections sp)"
        "res = None \<longleftrightarrow> n = count sp"
      by blast
    show ?thesis
    proof (cases res)
      case None
      then have "n = count sp" "i = 0" using res(4) in_range by simp_all
      moreover have "SectionList_resize rt index cnt sz =
          Some (Inr (Some (createLeaf n (of_int n * max 0 sz)), n))"
        unfolding rs using in_range res(1) None by simp
      ultimately show ?thesis
        unfolding rcn s_def[symmetric] i_def[symmetric]
        using in_range(2) len
        by (simp add: Some list_sections_def list_ok_def createLeaf_def)
    next
      case (Some sp')
      then have wf': "well_formed sp'" using res(2) by (simp add: list_ok_def)
      have secs': "sections sp' = take (nat i) (sections sp) @ drop (nat (i + n)) (sections sp)"
        using res(3) Some by (simp add: list_sections_def)
      have "nat (count sp') = length (sections sp')" using wf' by (simp add: length_sections)
      also have "\<dots> = nat (count sp - n)"
        using in_range len by (simp add: secs')
      finally have "i \<le> count sp'" using in_range wf_count_pos[OF wf'] by simp
      from insert_span_ok[OF wf' in_range(3) this in_range(2), of "max 0 sz"] obtain t' where
        t': "insert_span sp' i n (max 0 sz) = Inr t'" "well_formed t'"
          "sections t' = take (nat i) (sections sp') @ replicate (nat n) (max 0 sz)
                           @ drop (nat i) (sections sp')" by auto
      have "SectionList_resize rt index cnt sz = Some (Inr (Some t', n))"
        unfolding rs using in_range res(1) Some t'(1) by simp
      moreover have "nat i \<le> length (sections sp)" using in_range len by simp
      ultimately show ?thesis
        unfolding rcn s_def[symmetric] i_def[symmetric]
        using t'(2,3) in_range
        by (simp add: \<open>rt = Some sp\<close> list_sections_def list_ok_def secs' nat_add_distrib)
    qed
  qed
qed

lemma reachable_list_ok: "reachable rt \<Longrightarrow> list_ok rt"
proof (induction rule: reachable.induct)
  case reachable_new
  show ?case by (simp add: list_ok_def)
next
  case (reachable_insert rt index cnt sz rt' res)
  show ?case
  proof (cases "0 < \<lfloor>cnt\<rfloor>")
    case True
    from SectionList_insert_ok[OF reachable_insert.IH True, of index sz] show ?thesis
      using reachable_insert.hyps(2) by auto
  next
    case False
    then show ?thesis
      using reachable_insert.hyps(2) reachable_insert.IH
      by (simp add: SectionList_insert_noop)
  qed
next
  case (reachable_remove rt index cnt rt' res)
  from SectionList_remove_ok[OF reachable_remove.IH, of index cnt] show ?case
    using reachable_remove.hyps(2) by auto
next
  case (reachable_resize rt index cnt sz rt' res)
  from SectionList_resize_ok[OF reachable_resize.IH, of index cnt sz] show ?case
    using reachable_resize.hyps(2) by auto
qed


text \<open>A list of five sections of size 10, as \<^verbatim>\<open>insert(0, 5, 10)\<close> builds it from the empty list.\<close>

lemma reachable_uniform: "reachable (Some (Leaf 5 50))"
proof -
  have "SectionList_insert None 0 5 10 = Inr (Some (Leaf 5 50), 0)"
    by (simp add: SectionList_insert_def createLeaf_def)
  with reachable_new show ?thesis by (rule reachable_insert)
qed

lemma removed_count_range:
  assumes "list_ok rt"
  shows "removed_count rt index cnt = 0 \<or>
         (0 < removed_count rt index cnt \<and>
          max 0 \<lfloor>index\<rfloor> + removed_count rt index cnt \<le> list_count rt)"
proof -
  define ct where "ct = \<lfloor>cnt\<rfloor>"
  define s where "s = \<lfloor>index\<rfloor>"
  have "removed_count rt index cnt =
          (if ct \<le> 0 then 0 else max 0 (min (s + ct - 1) (list_count rt - 1) - max 0 s + 1))"
    unfolding removed_count_def ct_def s_def by (rule refl)
  then show ?thesis unfolding s_def[symmetric] by auto
qed

lemma SectionList_insert_int:
  assumes "0 < n" "0 \<le> i" "i \<le> list_count rt"
  shows "SectionList_insert rt (of_int i) (of_int n) sz =
           (case rt of
              None \<Rightarrow> Inr (Some (createLeaf n (of_int n * max 0 sz)), 0)
            | Some sp \<Rightarrow>
                (case insert_span sp i n (max 0 sz) of
                   Inl e \<Rightarrow> Inl e
                 | Inr sp' \<Rightarrow> Inr (Some sp', i)))"
proof (cases rt)
  case None
  then show ?thesis using assms(1) by (simp add: SectionList_insert_def)
next
  case (Some sp)
  have "max 0 (min i (count sp)) = i" using assms(2,3) by (simp add: Some list_count_def)
  then show ?thesis using assms(1) by (simp add: Some SectionList_insert_def)
qed

section \<open>The queries on well-formed lists\<close>










section \<open>Call sequences\<close>

lemma run_calls_reachable:
  "reachable rt \<Longrightarrow> run_calls rt cs = Some (Inr rt') \<Longrightarrow> reachable rt'"
proof (induction cs arbitrary: rt)
  case Nil
  then show ?case by simp
next
  case (Cons c cs)
  from Cons.prems(2) obtain rt1 where
    step: "do_call rt c = Some (Inr rt1)" and rest: "run_calls rt1 cs = Some (Inr rt')"
    by (auto split: option.splits sum.splits)
  have "reachable rt1"
  proof (cases c)
    case (Insert index cnt sz)
    with step obtain res where "SectionList_insert rt index cnt sz = Inr (rt1, res)"
      by (auto split: sum.splits)
    with Cons.prems(1) show ?thesis by (rule reachable_insert)
  next
    case (Remove index cnt)
    with step obtain res where "SectionList_remove rt index cnt = Some (Inr (rt1, res))"
      by (auto split: option.splits sum.splits)
    with Cons.prems(1) show ?thesis by (rule reachable_remove)
  next
    case (Resize index cnt sz)
    with step obtain res where "SectionList_resize rt index cnt sz = Some (Inr (rt1, res))"
      by (auto split: option.splits sum.splits)
    with Cons.prems(1) show ?thesis by (rule reachable_resize)
  qed
  then show ?case using rest by (rule Cons.IH)
qed

lemma reachable_nine_leaves: "reachable (Some nine_leaves)"
proof -
  have "run_calls None build_nine_leaves = Some (Inr (Some nine_leaves))"
    by code_simp
  with reachable_new show ?thesis by (rule run_calls_reachable)
qed

section \<open>The claims\<close>

subsection \<open>Insertion\<close>



subsection \<open>Bounds\<close>

text \<open>
  Claim C7. On every list state: \<^verbatim>\<open>indexOf(-1)\<close>, \<^verbatim>\<open>indexOf(size)\<close>, \<^verbatim>\<open>offsetOf(-1)\<close> and
  \<^verbatim>\<open>offsetOf(count)\<close> return -1; \<^verbatim>\<open>insert(idx, 0, s)\<close> returns -1 and \<^verbatim>\<open>remove(idx, 0)\<close>
  returns 0, both leaving the list as it is; a \<^verbatim>\<open>remove\<close> or \<^verbatim>\<open>resize\<close> whose count is at
  most 0, or whose range of indices \<open>\<lfloor>index\<rfloor> .. \<lfloor>index\<rfloor> + \<lfloor>count\<rfloor> - 1\<close> ends before 0
  or starts after the last section, returns 0 and leaves the list as it is.
\<close>

theorem idempotent_bounds:
  "SectionList_indexOf rt (- 1) = Inr (- 1) \<and>
   SectionList_indexOf rt (list_size rt) = Inr (- 1) \<and>
   SectionList_offsetOf rt (- 1) = Inr (- 1) \<and>
   SectionList_offsetOf rt (of_int (list_count rt)) = Inr (- 1) \<and>
   SectionList_insert rt idx 0 sz = Inr (rt, - 1) \<and>
   SectionList_remove rt idx 0 = Some (Inr (rt, 0)) \<and>
   (cnt \<le> 0 \<or> \<lfloor>index\<rfloor> + \<lfloor>cnt\<rfloor> - 1 < 0 \<or> list_count rt - 1 < \<lfloor>index\<rfloor> \<longrightarrow>
      SectionList_remove rt index cnt = Some (Inr (rt, 0)) \<and>
      SectionList_resize rt index cnt sz' = Some (Inr (rt, 0)))"
proof (intro conjI impI)
  show "SectionList_indexOf rt (- 1) = Inr (- 1)"
    by (cases rt) (simp_all add: SectionList_indexOf_def)
  show "SectionList_indexOf rt (list_size rt) = Inr (- 1)"
    by (cases rt) (simp_all add: SectionList_indexOf_def list_size_def)
  show "SectionList_offsetOf rt (- 1) = Inr (- 1)"
    by (cases rt) (simp_all add: SectionList_offsetOf_def)
  show "SectionList_offsetOf rt (of_int (list_count rt)) = Inr (- 1)"
    by (cases rt) (simp_all add: SectionList_offsetOf_def list_count_def)
  show "SectionList_insert rt idx 0 sz = Inr (rt, - 1)"
    by (simp add: SectionList_insert_def)
  show "SectionList_remove rt idx 0 = Some (Inr (rt, 0))"
    by (cases rt) (simp_all add: SectionList_remove_def)
next
  define ct where "ct = \<lfloor>cnt\<rfloor>"
  define s where "s = \<lfloor>index\<rfloor>"
  assume "cnt \<le> 0 \<or> \<lfloor>index\<rfloor> + \<lfloor>cnt\<rfloor> - 1 < 0 \<or> list_count rt - 1 < \<lfloor>index\<rfloor>"
  moreover have "cnt \<le> 0 \<Longrightarrow> ct \<le> 0" unfolding ct_def by (simp add: floor_le_iff)
  ultimately have out: "ct \<le> 0 \<or> s + ct - 1 < 0 \<or> list_count rt - 1 < s"
    unfolding ct_def s_def by blast
  show "SectionList_remove rt index cnt = Some (Inr (rt, 0))"
  proof (cases rt)
    case None
    then show ?thesis by (simp add: SectionList_remove_def)
  next
    case (Some sp)
    have "ct \<le> 0 \<or> min (s + ct - 1) (count sp - 1) - max 0 s + 1 \<le> 0"
      using out by (auto simp: Some list_count_def)
    then show ?thesis
      unfolding SectionList_remove_def Some option.case Let_def ct_def[symmetric] s_def[symmetric]
      by auto
  qed
  show "SectionList_resize rt index cnt sz' = Some (Inr (rt, 0))"
  proof (cases rt)
    case None
    then show ?thesis by (simp add: SectionList_resize_def)
  next
    case (Some sp)
    have "ct \<le> 0 \<or> min (s + ct - 1) (count sp - 1) - max 0 s + 1 \<le> 0"
      using out by (auto simp: Some list_count_def)
    then show ?thesis
      unfolding SectionList_resize_def Some option.case Let_def ct_def[symmetric] s_def[symmetric]
      by auto
  qed
qed

theorem idempotent_bounds_witness:
  "list_count (Some (Leaf 5 50)) - 1 < \<lfloor>7 :: rat\<rfloor> \<and>
   SectionList_remove (Some (Leaf 5 50)) 7 2 = Some (Inr (Some (Leaf 5 50), 0)) \<and>
   SectionList_resize (Some (Leaf 5 50)) 7 2 3 = Some (Inr (Some (Leaf 5 50), 0))"
  using idempotent_bounds[of "Some (Leaf 5 50)" 0 0 2 7 3]
  by (simp add: list_count_def)

subsection \<open>Removal\<close>






subsection \<open>Resizing\<close>

text \<open>
  Claim C4. On every reachable list and for all arguments, \<^verbatim>\<open>resize(index, count, size)\<close>
  gives the same list and the same return value as \<^verbatim>\<open>remove(index, count)\<close> followed by
  \<^verbatim>\<open>insert\<close> of the number of sections actually removed, with the new size, at the
  starting index \<open>max 0 \<lfloor>index\<rfloor>\<close>; it returns that number, and the total count is
  unchanged.
\<close>

theorem resize_refines:
  assumes "reachable rt"
  shows "SectionList_resize rt index cnt sz = resize_spec rt index cnt sz \<and>
         (\<exists>rt'. SectionList_resize rt index cnt sz =
                   Some (Inr (rt', removed_count rt index cnt)) \<and>
                 list_count rt' = list_count rt)"
proof -
  have ok: "list_ok rt" using assms by (rule reachable_list_ok)
  have len: "list_count rt = int (length (list_sections rt))"
    using ok by (rule list_count_sections)
  have count_kept: "\<exists>rt'. SectionList_resize rt index cnt sz =
                   Some (Inr (rt', removed_count rt index cnt)) \<and>
                 list_count rt' = list_count rt"
  proof -
    from SectionList_resize_ok[OF ok, of index cnt sz] obtain rt' where
      rt': "SectionList_resize rt index cnt sz = Some (Inr (rt', removed_count rt index cnt))"
        "list_ok rt'"
        "list_sections rt' =
           take (nat (max 0 \<lfloor>index\<rfloor>)) (list_sections rt)
             @ replicate (nat (removed_count rt index cnt)) (max 0 sz)
             @ drop (nat (max 0 \<lfloor>index\<rfloor> + removed_count rt index cnt)) (list_sections rt)"
      by blast
    define i where "i = max 0 \<lfloor>index\<rfloor>"
    define k where "k = removed_count rt index cnt"
    have i0: "0 \<le> i" by (simp add: i_def)
    have "k = 0 \<or> (0 < k \<and> i + k \<le> list_count rt)"
      unfolding k_def i_def using ok by (rule removed_count_range)
    then have "length (take (nat i) (list_sections rt) @ replicate (nat k) (max 0 sz)
                 @ drop (nat (i + k)) (list_sections rt)) = length (list_sections rt)"
      using len i0 by auto
    then have "length (list_sections rt') = length (list_sections rt)"
      unfolding rt'(3) i_def k_def .
    then have "list_count rt' = list_count rt"
      using list_count_sections[OF rt'(2)] len by simp
    then show ?thesis using rt'(1) by blast
  qed
  have refines: "SectionList_resize rt index cnt sz = resize_spec rt index cnt sz"
  proof (cases rt)
    case None
    then show ?thesis
      by (simp add: SectionList_resize_def resize_spec_def SectionList_remove_def
            SectionList_insert_def)
  next
    case (Some sp)
    have wf: "well_formed sp" using ok by (simp add: Some list_ok_def)
    have lsp: "length (sections sp) = nat (count sp)" using wf by (rule length_sections)
    define ct where "ct = \<lfloor>cnt\<rfloor>"
    define s where "s = \<lfloor>index\<rfloor>"
    define i where "i = max 0 s"
    define n where "n = min (s + ct - 1) (count sp - 1) - i + 1"
    have rm: "SectionList_remove rt index cnt =
        (if ct \<le> 0 then Some (Inr (rt, 0))
         else if n \<le> 0 then Some (Inr (rt, 0))
         else (case remove_span sp i n of
                 None \<Rightarrow> None
               | Some (Inl e) \<Rightarrow> Some (Inl e)
               | Some (Inr rt') \<Rightarrow> Some (Inr (rt', n))))"
      unfolding SectionList_remove_def Some option.case Let_def ct_def s_def i_def n_def
      by (rule refl)
    have rs: "SectionList_resize rt index cnt sz =
        (if ct \<le> 0 then Some (Inr (rt, 0))
         else if n \<le> 0 then Some (Inr (rt, 0))
         else (case remove_span sp i n of
                 None \<Rightarrow> None
               | Some (Inl e) \<Rightarrow> Some (Inl e)
               | Some (Inr None) \<Rightarrow> Some (Inr (Some (createLeaf n (of_int n * max 0 sz)), n))
               | Some (Inr (Some sp')) \<Rightarrow>
                   (case insert_span sp' i n (max 0 sz) of
                      Inl e \<Rightarrow> Some (Inl e)
                    | Inr sp'' \<Rightarrow> Some (Inr (Some sp'', n)))))"
      unfolding SectionList_resize_def Some option.case Let_def ct_def s_def i_def n_def
      by (rule refl)
    have spec: "resize_spec rt index cnt sz =
        (case SectionList_remove rt index cnt of
           None \<Rightarrow> None
         | Some (Inl e) \<Rightarrow> Some (Inl e)
         | Some (Inr (rt', n)) \<Rightarrow>
             (case SectionList_insert rt' (of_int i) (of_int n) sz of
                Inl e \<Rightarrow> Some (Inl e)
              | Inr (rt'', i) \<Rightarrow> Some (Inr (rt'', n))))"
      unfolding resize_spec_def i_def s_def by (rule refl)
    from wf show ?thesis
    proof (cases rule: range_cases[where sp=sp and s=s and ct=ct])
      case noop
      then have "ct \<le> 0 \<or> n \<le> 0" unfolding i_def[symmetric] n_def[symmetric] by simp
      then have "SectionList_resize rt index cnt sz = Some (Inr (rt, 0))"
        "SectionList_remove rt index cnt = Some (Inr (rt, 0))"
        unfolding rs rm by auto
      then show ?thesis unfolding spec by (simp add: SectionList_insert_def)
    next
      case range
      then have in_range: "0 < ct" "0 < n" "0 \<le> i" "i + n \<le> count sp"
        unfolding i_def[symmetric] n_def[symmetric] by simp_all
      from remove_span_ok[OF wf in_range(3,2,4)] obtain res where
        res: "remove_span sp i n = Some (Inr res)" "list_ok res"
          "list_sections res = take (nat i) (sections sp) @ drop (nat (i + n)) (sections sp)"
        by blast
      have "length (list_sections res) = nat (count sp - n)"
        unfolding res(3) using in_range lsp by simp
      then have "i \<le> list_count res"
        using list_count_sections[OF res(2)] in_range by simp
      note ins = SectionList_insert_int[OF in_range(2,3) this, of sz]
      have "SectionList_remove rt index cnt = Some (Inr (res, n))"
        unfolding rm using in_range res(1) by simp
      then have "resize_spec rt index cnt sz =
          (case SectionList_insert res (of_int i) (of_int n) sz of
             Inl e \<Rightarrow> Some (Inl e)
           | Inr (rt'', i) \<Rightarrow> Some (Inr (rt'', n)))"
        unfolding spec by simp
      moreover have "SectionList_resize rt index cnt sz =
          (case res of
             None \<Rightarrow> Some (Inr (Some (createLeaf n (of_int n * max 0 sz)), n))
           | Some sp' \<Rightarrow>
               (case insert_span sp' i n (max 0 sz) of
                  Inl e \<Rightarrow> Some (Inl e)
                | Inr sp'' \<Rightarrow> Some (Inr (Some sp'', n))))"
        unfolding rs using in_range res(1) by simp
      ultimately show ?thesis
        unfolding ins by (simp split: option.splits sum.splits)
    qed
  qed
  from refines count_kept show ?thesis by (rule conjI)
qed

theorem resize_refines_witness:
  "reachable (Some (Leaf 5 50)) \<and>
   SectionList_resize (Some (Leaf 5 50)) 1 2 5 = resize_spec (Some (Leaf 5 50)) 1 2 5 \<and>
   (\<exists>rt'. SectionList_resize (Some (Leaf 5 50)) 1 2 5 = Some (Inr (rt', 2)) \<and>
      list_count rt' = 5)"
proof -
  have rc: "removed_count (Some (Leaf 5 50)) 1 2 = 2"
    by (simp add: removed_count_def list_count_def)
  have lc: "list_count (Some (Leaf 5 50)) = 5" by (simp add: list_count_def)
  show ?thesis
    using resize_refines[OF reachable_uniform, of 1 2 5] reachable_uniform
    unfolding rc lc by blast
qed

subsection \<open>Queries\<close>






subsection \<open>Rebalancing\<close>



text \<open>
  Claim C8. Every \<^verbatim>\<open>remove\<close> call on a reachable list returns. For every reachable tree and
  every removal in range, the recursive \<^verbatim>\<open>remove\<close> returns (so every run of its
  rebalancing loop has ended), with a root that passes the loop's test. On every branch
  with well-formed children, as the loop receives it, the loop ends after finitely many
  passes with a span for which \<open>\<bar>left.level - right.level\<bar> \<le> 1\<close>. The proof is by the
  measure \<open>loop_measure\<close>, which every pass that leaves the root unbalanced lowers.
\<close>

theorem remove_terminates:
  assumes "reachable rt"
  shows "(\<exists>rt' n. SectionList_remove rt index cnt = Some (Inr (rt', n))) \<and>
         (\<forall>sp i n. rt = Some sp \<and> 0 \<le> i \<and> 0 < n \<and> i + n \<le> count sp \<longrightarrow>
            (\<exists>res. remove_span sp i n = Some (Inr res) \<and> list_balanced_root res)) \<and>
         (\<forall>c s lv l r. well_formed l \<and> well_formed r \<longrightarrow>
            (\<exists>t'. rebalance_loop (Branch c s lv l r) = Some (Inr t') \<and> \<not> unbalanced t'))"
proof (intro conjI allI impI)
  have ok: "list_ok rt" using assms by (rule reachable_list_ok)
  from SectionList_remove_ok[OF ok, of index cnt]
  show "\<exists>rt' n. SectionList_remove rt index cnt = Some (Inr (rt', n))" by blast
  {
    fix sp i n
    assume h: "rt = Some sp \<and> 0 \<le> i \<and> 0 < n \<and> i + n \<le> count sp"
    then have "well_formed sp" using ok by (simp add: list_ok_def)
    from remove_span_ok[OF this, of i n] h
    show "\<exists>res. remove_span sp i n = Some (Inr res) \<and> list_balanced_root res" by blast
  }
  {
    fix c s lv l r
    assume "well_formed l \<and> well_formed r"
    then have "well_formed l" "well_formed r" by blast+
    from rebalance_loop_ok[OF this, of c s lv]
    show "\<exists>t'. rebalance_loop (Branch c s lv l r) = Some (Inr t') \<and> \<not> unbalanced t'" by blast
  }
qed

theorem remove_terminates_witness:
  "reachable (Some nine_leaves) \<and>
   (\<exists>rt' n. SectionList_remove (Some nine_leaves) 10 1 = Some (Inr (rt', n))) \<and>
   (\<exists>res. remove_span nine_leaves 10 1 = Some (Inr res) \<and> list_balanced_root res) \<and>
   well_formed nine_leaves_left \<and>
   well_formed (Branch 3 3 1 (Leaf 2 2) (Leaf 1 1)) \<and>
   (\<exists>t'. rebalance_loop
            (Branch 12 16 4 nine_leaves_left (Branch 3 3 1 (Leaf 2 2) (Leaf 1 1)))
          = Some (Inr t') \<and> \<not> unbalanced t')"
proof -
  note t = remove_terminates[OF reachable_nine_leaves, of 10 1]
  have wf: "well_formed nine_leaves_left" "well_formed (Branch 3 3 1 (Leaf 2 2) (Leaf 1 1))"
    by simp_all
  from t have a: "\<exists>rt' n. SectionList_remove (Some nine_leaves) 10 1 = Some (Inr (rt', n))"
    by blast
  from t have b: "\<exists>res. remove_span nine_leaves 10 1 = Some (Inr res) \<and> list_balanced_root res"
    by (elim conjE allE[of _ nine_leaves] allE[of _ "10 :: int"] allE[of _ "1 :: int"] impE)
       simp_all
  from t wf have c: "\<exists>t'. rebalance_loop
            (Branch 12 16 4 nine_leaves_left (Branch 3 3 1 (Leaf 2 2) (Leaf 1 1)))
          = Some (Inr t') \<and> \<not> unbalanced t'"
    by blast
  from reachable_nine_leaves a b wf c show ?thesis by (intro conjI)
qed

text \<open>
  Claim C2 says that after every \<^verbatim>\<open>insert\<close>, \<^verbatim>\<open>remove\<close> or \<^verbatim>\<open>resize\<close> every branch
  satisfies \<open>\<bar>left.level - right.level\<bar> \<le> 1\<close>. The code does not keep this. The list
  \<open>nine_leaves\<close> is built by six \<^verbatim>\<open>insert\<close> calls and is balanced at every branch;
  \<^verbatim>\<open>remove(10, 1)\<close> leaves the root with child levels 3 and 1, where the two children of
  the left child have equal levels. \<^verbatim>\<open>rebalance\<close> tests \<^verbatim>\<open>subLeft.level > subRight.level\<close>,
  takes the double rotation, and builds a branch over a span of level 2 and a leaf.
\<close>

theorem balance_broken_by_remove:
  "run_calls None build_nine_leaves = Some (Inr (Some nine_leaves)) \<and>
   list_balanced (Some nine_leaves) \<and>
   SectionList_remove (Some nine_leaves) 10 1 = Some (Inr (Some eight_leaves, 1)) \<and>
   \<not> list_balanced (Some eight_leaves)"
  by code_simp

end
